theory Spec2Isabelle
  imports Complex_Main "HOL-Library.Multiset" "HOL-Library.Sublist"
    "HOL-Library.Char_ord" "HOL-Library.List_Lexorder"
begin

section \<open>Tables, cells and the library operations the script calls\<close>

text \<open>
  A cell of a pandas column: the missing marker (\<open>np.nan\<close>, and \<open>NaT\<close> in a datetime
  column), a Python string, a number, or a timestamp (year, month, day, microseconds of the
  day).  Floating-point numbers are written as the rationals their decimal literals denote;
  none of the properties below depends on rounding.
\<close>

datatype cell = NaN | Str string | Num rat | Stamp int int int int

datatype error = ValueError | TypeError | AssertionError

text \<open>\<open>Series.notna()\<close>: only the missing marker is missing; the string \<open>'nan'\<close> is not.\<close>

definition notna :: "cell \<Rightarrow> bool" where
  "notna c = (c \<noteq> NaN)"

text \<open>
  A data frame is the list of its rows in display order, each with its index label.
  \<open>pd.read_csv\<close> labels the rows \<open>0, 1, 2, ...\<close>; filtering keeps the labels.
\<close>

type_synonym 'r frame = "(nat \<times> 'r) list"

definition read_csv :: "'r list \<Rightarrow> 'r frame" where
  "read_csv rows = zip [0..<length rows] rows"

text \<open>\<open>Series.replace(to_replace, value)\<close> with a list of values to replace.\<close>

definition replace_list :: "cell list \<Rightarrow> cell \<Rightarrow> cell \<Rightarrow> cell" where
  "replace_list to_replace v c = (if c \<in> set to_replace then v else c)"

text \<open>
  \<open>DataFrame.drop_duplicates(keep='first')\<close> and \<open>drop_duplicates(subset=col, keep='first')\<close>:
  a row is dropped when an earlier row has the same key.  pandas counts two missing cells
  as equal here, as equality of cells does.
\<close>

fun drop_dups :: "'k list \<Rightarrow> ('a \<Rightarrow> 'k) \<Rightarrow> 'a list \<Rightarrow> 'a list" where
  "drop_dups seen key [] = []"
| "drop_dups seen key (x # xs) =
     (if key x \<in> set seen then drop_dups seen key xs
      else x # drop_dups (key x # seen) key xs)"

definition drop_duplicates :: "'r frame \<Rightarrow> 'r frame" where
  "drop_duplicates df = drop_dups [] snd df"

text \<open>\<open>duplicated(keep=False)\<close>: the mask of the rows whose key occurs in another row too.\<close>

definition duplicated :: "('a \<Rightarrow> 'k) \<Rightarrow> 'a list \<Rightarrow> 'a \<Rightarrow> bool" where
  "duplicated key df x = (1 < length (filter (\<lambda>y. key y = key x) df))"

text \<open>
  Sorting is numpy's \<open>argsort\<close>, which \<open>sort_values\<close> and \<open>sort_index\<close> call with their
  default \<open>kind='quicksort'\<close>.  It is a parameter of the model: numpy promises a permutation
  of the positions that puts the keys in ascending order, and for this kind it promises
  nothing about the order of equal keys.
\<close>

definition argsort_ok :: "(int list \<Rightarrow> nat list) \<Rightarrow> bool" where
  "argsort_ok argsort =
     (\<forall>ks. mset (argsort ks) = mset [0..<length ks] \<and> sorted (map ((!) ks) (argsort ks)))"

text \<open>\<open>DataFrame.take(indexer)\<close>.\<close>

definition take_rows :: "'a list \<Rightarrow> nat list \<Rightarrow> 'a list" where
  "take_rows df indexer = map ((!) df) indexer"

text \<open>\<open>sort_index()\<close>: ascending by index label.\<close>

definition sort_index :: "(int list \<Rightarrow> nat list) \<Rightarrow> 'r frame \<Rightarrow> 'r frame" where
  "sort_index argsort df = take_rows df (argsort (map (\<lambda>x. int (fst x)) df))"

text \<open>
  \<open>sort_values(by, ascending=False)\<close>: pandas reverses the keys, sorts them ascending, maps
  the positions back and reverses the result, so that a stable \<open>argsort\<close> keeps equal keys
  in their original order.
\<close>

definition sort_values_desc :: "(int list \<Rightarrow> nat list) \<Rightarrow> ('a \<Rightarrow> int) \<Rightarrow> 'a list \<Rightarrow> 'a list" where
  "sort_values_desc argsort by df =
     take_rows df
       (rev (map (\<lambda>j. length df - 1 - j) (argsort (rev (map by df)))))"

text \<open>
  Two sorts that meet numpy's contract.  \<open>stable_argsort\<close> keeps equal keys in input
  order (what \<open>kind='stable'\<close> would do); \<open>backward_argsort\<close> puts equal keys in reverse
  input order.
\<close>

definition stable_argsort :: "int list \<Rightarrow> nat list" where
  "stable_argsort ks = map snd (sort_key fst (zip ks [0..<length ks]))"


text \<open>\<open>Series.astype(str)\<close>: the missing marker becomes the string \<open>'nan'\<close>; a string is
  kept; any other value becomes its Python \<open>str()\<close>, a parameter of the model.\<close>

definition astype_str :: "(cell \<Rightarrow> string) \<Rightarrow> cell \<Rightarrow> cell" where
  "astype_str str_of c = (case c of NaN \<Rightarrow> Str ''nan'' | Str s \<Rightarrow> Str s | _ \<Rightarrow> Str (str_of c))"


text \<open>
  Running a step that may raise over the rows of a column: the first exception aborts the
  whole statement, and with it the script.
\<close>

fun map_result :: "('a \<Rightarrow> error + 'b) \<Rightarrow> 'a list \<Rightarrow> error + 'b list" where
  "map_result f [] = Inr []"
| "map_result f (x # xs) =
     (case f x of
        Inl e \<Rightarrow> Inl e
      | Inr y \<Rightarrow> (case map_result f xs of Inl e \<Rightarrow> Inl e | Inr ys \<Rightarrow> Inr (y # ys)))"

text \<open>
  What parsing a string as a number gives: a failure, the float \<open>nan\<close>, or a number.
  Python's \<open>float()\<close> and \<open>pd.to_numeric\<close> are parameters of this type.
\<close>

datatype parsed = Invalid | Nan | Finite rat

text \<open>\<open>Series.astype(float)\<close> on one cell: a string that does not parse raises.\<close>

definition astype_float :: "(string \<Rightarrow> parsed) \<Rightarrow> cell \<Rightarrow> error + cell" where
  "astype_float pyfloat c =
     (case c of
        NaN \<Rightarrow> Inr NaN
      | Num r \<Rightarrow> Inr (Num r)
      | Str s \<Rightarrow> (case pyfloat s of
                    Invalid \<Rightarrow> Inl ValueError | Nan \<Rightarrow> Inr NaN | Finite r \<Rightarrow> Inr (Num r))
      | Stamp y m d t \<Rightarrow> Inl TypeError)"

text \<open>\<open>pd.to_numeric(errors='coerce')\<close> on one cell: what does not parse becomes missing.\<close>

definition to_numeric_coerce :: "(string \<Rightarrow> parsed) \<Rightarrow> cell \<Rightarrow> cell" where
  "to_numeric_coerce to_numeric c =
     (case c of
        Num r \<Rightarrow> Num r
      | Str s \<Rightarrow> (case to_numeric s of Finite r \<Rightarrow> Num r | _ \<Rightarrow> NaN)
      | _ \<Rightarrow> NaN)"

text \<open>\<open>Series.replace({old: new})\<close> on one cell.\<close>

definition replace_value :: "cell \<Rightarrow> cell \<Rightarrow> cell \<Rightarrow> cell" where
  "replace_value old new c = (if c = old then new else c)"

text \<open>The cells of a float column: a number or \<open>nan\<close>.\<close>

definition is_float :: "cell \<Rightarrow> bool" where
  "is_float c = (case c of NaN \<Rightarrow> True | Num r \<Rightarrow> True | _ \<Rightarrow> False)"

text \<open>
  A parser for evaluating the model on examples: unsigned decimal numerals with an integer
  part (\<open>0\<close>, \<open>276.00\<close>, \<open>1.5\<close>), on which Python's \<open>float()\<close> and \<open>pd.to_numeric\<close>
  give the number written; it rejects every other string, as both reject \<open>abc\<close> or a blank.
\<close>

definition digit_of :: "char \<Rightarrow> nat option" where
  "digit_of c =
     (if CHR ''0'' \<le> c \<and> c \<le> CHR ''9'' then Some (of_char c - 48) else None)"

fun digits_val :: "nat \<Rightarrow> string \<Rightarrow> nat option" where
  "digits_val acc [] = Some acc"
| "digits_val acc (c # cs) =
     (case digit_of c of None \<Rightarrow> None | Some d \<Rightarrow> digits_val (10 * acc + d) cs)"

definition parse_decimal :: "string \<Rightarrow> parsed" where
  "parse_decimal s =
     (let ip = takeWhile (\<lambda>c. c \<noteq> CHR ''.'') s;
          rest = dropWhile (\<lambda>c. c \<noteq> CHR ''.'') s
      in if ip = [] then Invalid
         else case digits_val 0 ip of
                None \<Rightarrow> Invalid
              | Some i \<Rightarrow>
                  (case rest of
                     [] \<Rightarrow> Finite (of_nat i)
                   | dot # fp \<Rightarrow>
                       (case digits_val 0 fp of
                          None \<Rightarrow> Invalid
                        | Some f \<Rightarrow> Finite (of_nat i + of_nat f / 10 ^ length fp))))"


section \<open>User data\<close>

subsection \<open>Gender normalisation (lines 104-110)\<close>

definition texts_to_replace_missing :: "cell list" where
  "texts_to_replace_missing =
     [Str ''prefer_not_to_say'', Str ''Prefer not to say'', Str ''unknown'',
      Str ''not_listed'', Str ''not_specified'',
      Str (''My gender isn'' @ [CHR 0x27] @ ''t listed'')]"

definition texts_to_replace_non_binary :: "cell list" where
  "texts_to_replace_non_binary = [Str ''non_binary'', Str ''Non-Binary'']"

definition normalize_gender :: "cell \<Rightarrow> cell" where
  "normalize_gender c =
     replace_list texts_to_replace_non_binary (Str ''non_binary'')
       (replace_list texts_to_replace_missing NaN c)"


subsection \<open>Birth dates, ages and account ages (lines 99-143)\<close>

record user_raw =
  ID :: cell
  CREATED_DATE :: cell
  BIRTH_DATE :: cell
  GENDER :: cell
  u_other :: "cell list"

record user_aged = user_raw +
  AGE :: cell

record user = user_aged +
  ACCOUNT_AGE_MONTHS :: cell
















section \<open>Products data\<close>

text \<open>
  The columns of the products file that the script names, and the remaining ones as a list.
  The script renames \<open>BARCODE\<close> to \<open>BARCODE_products\<close> (line 204); the field carries the
  later name throughout.
\<close>

record product =
  CATEGORY_1 :: cell
  CATEGORY_2 :: cell
  CATEGORY_3 :: cell
  BRAND :: cell
  BARCODE_products :: cell
  p_other :: "cell list"

definition product_cells :: "product \<Rightarrow> cell list" where
  "product_cells r =
     [CATEGORY_1 r, CATEGORY_2 r, CATEGORY_3 r, BRAND r, BARCODE_products r] @ p_other r"

text \<open>\<open>duplicate_rows.notna().sum(axis=1)\<close> (line 240).\<close>

definition non_missing_count :: "product \<Rightarrow> int" where
  "non_missing_count r = int (length (filter notna (product_cells r)))"

text \<open>The values the script itself counts as a missing barcode (line 222).\<close>

definition is_missing_barcode :: "cell \<Rightarrow> bool" where
  "is_missing_barcode c = (c \<in> set [NaN, Str ''N/A'', Str [], Str ''nan''])"

definition get_duplicate_barcode_products :: "product frame \<Rightarrow> product frame" where
  "get_duplicate_barcode_products products_df =
     filter (duplicated (\<lambda>x. BARCODE_products (snd x)) products_df) products_df"

definition keep_most_complete_duplicates ::
  "(int list \<Rightarrow> nat list) \<Rightarrow> product frame \<Rightarrow> product frame" where
  "keep_most_complete_duplicates argsort df =
     (let duplicates = duplicated (\<lambda>x. BARCODE_products (snd x)) df;
          duplicate_rows = filter duplicates df;
          non_duplicate_rows = filter (\<lambda>x. \<not> duplicates x) df
      in if duplicate_rows = [] then df
         else
           let most_complete_rows =
                 drop_dups [] (\<lambda>x. BARCODE_products (snd x))
                   (sort_values_desc argsort (\<lambda>x. non_missing_count (snd x)) duplicate_rows)
           in sort_index argsort (non_duplicate_rows @ most_complete_rows))"

text \<open>Lines 189-256, in the order of the script.\<close>

definition clean_products ::
  "(int list \<Rightarrow> nat list) \<Rightarrow> (cell \<Rightarrow> string) \<Rightarrow> product list \<Rightarrow> product frame" where
  "clean_products argsort str_of raw =
     (let products = drop_duplicates (read_csv raw);
          products = filter (\<lambda>x. CATEGORY_1 (snd x) \<noteq> Str ''Needs Review'') products;
          products = map (\<lambda>x. (fst x,
                       (snd x)\<lparr>BARCODE_products := astype_str str_of (BARCODE_products (snd x))\<rparr>))
                       products;
          products = filter (\<lambda>x. notna (BARCODE_products (snd x))) products
      in keep_most_complete_duplicates argsort products)"


section \<open>Transaction data\<close>

record transaction =
  RECEIPT_ID :: cell
  USER_ID :: cell
  BARCODE :: cell
  FINAL_QUANTITY :: cell
  FINAL_SALE :: cell
  t_other :: "cell list"

text \<open>\<open>df.drop('FINAL_SALE', axis=1)\<close>: the row without its sale amount.\<close>

definition drop_FINAL_SALE :: "transaction \<Rightarrow> cell \<times> cell \<times> cell \<times> cell \<times> cell list" where
  "drop_FINAL_SALE r = (RECEIPT_ID r, USER_ID r, BARCODE r, FINAL_QUANTITY r, t_other r)"

definition remove_duplicate_missing_sales ::
  "(int list \<Rightarrow> nat list) \<Rightarrow> transaction frame \<Rightarrow> transaction frame" where
  "remove_duplicate_missing_sales argsort df =
     (let duplicates = duplicated (\<lambda>x. drop_FINAL_SALE (snd x)) df;
          valid_sales_duplicates =
            filter (\<lambda>x. duplicates x \<and> notna (FINAL_SALE (snd x))) df;
          non_duplicates = filter (\<lambda>x. \<not> duplicates x) df;
          cleaned_df = sort_index argsort (non_duplicates @ valid_sales_duplicates)
      in cleaned_df)"

text \<open>Lines 152-156 on one quantity cell.\<close>

definition clean_quantity :: "(string \<Rightarrow> parsed) \<Rightarrow> cell \<Rightarrow> error + cell" where
  "clean_quantity pyfloat c =
     (case astype_float pyfloat (replace_value (Str ''zero'') (Str ''0'') c) of
        Inl e \<Rightarrow> Inl e
      | Inr v \<Rightarrow> Inr (replace_value (Num 276) (Num (69 / 25)) v))"

text \<open>Lines 149-162: the table that \<open>remove_duplicate_missing_sales\<close> receives.\<close>

definition coerce_transactions ::
  "(string \<Rightarrow> parsed) \<Rightarrow> (string \<Rightarrow> parsed) \<Rightarrow> (cell \<Rightarrow> string) \<Rightarrow> transaction list
     \<Rightarrow> error + transaction frame" where
  "coerce_transactions pyfloat to_numeric str_of raw =
     (let transaction = drop_duplicates (read_csv raw)
      in case map_result
                (\<lambda>x. case clean_quantity pyfloat (FINAL_QUANTITY (snd x)) of
                        Inl e \<Rightarrow> Inl e
                      | Inr q \<Rightarrow> Inr (fst x, (snd x)\<lparr>FINAL_QUANTITY := q\<rparr>))
                transaction of
           Inl e \<Rightarrow> Inl e
         | Inr transaction \<Rightarrow>
             Inr (map (\<lambda>x. (fst x,
                        (snd x)\<lparr>BARCODE := astype_str str_of (BARCODE (snd x)),
                                FINAL_SALE := to_numeric_coerce to_numeric (FINAL_SALE (snd x))\<rparr>))
                    transaction))"

definition clean_transactions ::
  "(int list \<Rightarrow> nat list) \<Rightarrow> (string \<Rightarrow> parsed) \<Rightarrow> (string \<Rightarrow> parsed) \<Rightarrow> (cell \<Rightarrow> string)
     \<Rightarrow> transaction list \<Rightarrow> error + transaction frame" where
  "clean_transactions argsort pyfloat to_numeric str_of raw =
     (case coerce_transactions pyfloat to_numeric str_of raw of
        Inl e \<Rightarrow> Inl e
      | Inr transaction \<Rightarrow> Inr (remove_duplicate_missing_sales argsort transaction))"


text \<open>What lines 149-162 make of each row that the first duplicate removal keeps.\<close>

definition coerced_from ::
  "(string \<Rightarrow> parsed) \<Rightarrow> (string \<Rightarrow> parsed) \<Rightarrow> (cell \<Rightarrow> string)
     \<Rightarrow> nat \<times> transaction \<Rightarrow> nat \<times> transaction \<Rightarrow> bool" where
  "coerced_from pyfloat to_numeric str_of x y =
     (fst y = fst x
      \<and> clean_quantity pyfloat (FINAL_QUANTITY (snd x)) = Inr (FINAL_QUANTITY (snd y))
      \<and> FINAL_SALE (snd y) = to_numeric_coerce to_numeric (FINAL_SALE (snd x))
      \<and> BARCODE (snd y) = astype_str str_of (BARCODE (snd x)))"


section \<open>Merged data and the Dips & Salsa query\<close>

text \<open>
  \<open>pd.merge(left, right, left_on, right_on, how='left')\<close>: every left row in order, once
  for each right row with the same key, and once with a missing right side when there is
  none.  The result is relabelled \<open>0, 1, ...\<close>, so it is a list of rows.
\<close>

definition merge_left ::
  "('l \<Rightarrow> cell) \<Rightarrow> ('r \<Rightarrow> cell) \<Rightarrow> 'l list \<Rightarrow> 'r list \<Rightarrow> ('l \<times> 'r option) list" where
  "merge_left left_on right_on left right =
     concat (map (\<lambda>l. case filter (\<lambda>r. right_on r = left_on l) right of
                        [] \<Rightarrow> [(l, None)]
                      | ms \<Rightarrow> map (\<lambda>r. (l, Some r)) ms) left)"

type_synonym merged = "(transaction \<times> user option) \<times> product option"

definition merged_data ::
  "transaction frame \<Rightarrow> user frame \<Rightarrow> product frame \<Rightarrow> merged list" where
  "merged_data transaction user products =
     merge_left (\<lambda>m. BARCODE (fst m)) BARCODE_products
       (merge_left USER_ID ID (map snd transaction) (map snd user))
       (map snd products)"












section \<open>Example rows\<close>

text \<open>Rows for evaluating the model on small tables.\<close>

definition ex_transaction :: "cell \<Rightarrow> cell \<Rightarrow> cell \<Rightarrow> cell \<Rightarrow> transaction" where
  "ex_transaction u b q s =
     \<lparr>RECEIPT_ID = Str ''r1'', USER_ID = u, BARCODE = b, FINAL_QUANTITY = q,
      FINAL_SALE = s, t_other = []\<rparr>"


definition ex_user :: "cell \<Rightarrow> cell \<Rightarrow> cell \<Rightarrow> cell \<Rightarrow> cell \<Rightarrow> user" where
  "ex_user i birth created age months =
     \<lparr>ID = i, CREATED_DATE = created, BIRTH_DATE = birth, GENDER = Str ''female'',
      u_other = [], AGE = age, ACCOUNT_AGE_MONTHS = months\<rparr>"

definition ex_str_of :: "cell \<Rightarrow> string" where
  "ex_str_of c = ''123.0''"

definition ex_product :: "cell \<Rightarrow> cell \<Rightarrow> cell \<Rightarrow> product" where
  "ex_product category_2 brand barcode =
     \<lparr>CATEGORY_1 = Str ''Snacks'', CATEGORY_2 = category_2, CATEGORY_3 = NaN,
      BRAND = brand, BARCODE_products = barcode, p_other = []\<rparr>"


section \<open>Properties\<close>

subsection \<open>Gender normalisation\<close>

text \<open>
  C9: gender normalisation is idempotent: applying it twice to any gender value gives the
  same cell as applying it once.  In particular \<open>Prefer not to say\<close> becomes missing,
  \<open>Non-Binary\<close> becomes the canonical value \<open>non_binary\<close>, and \<open>female\<close> is unchanged.
\<close>

theorem normalize_gender_idempotent:
  "normalize_gender (normalize_gender c) = normalize_gender c
   \<and> normalize_gender (Str ''Prefer not to say'') = NaN
   \<and> normalize_gender (Str ''Non-Binary'') = Str ''non_binary''
   \<and> normalize_gender (Str ''female'') = Str ''female''"
  by (simp add: normalize_gender_def replace_list_def texts_to_replace_missing_def
      texts_to_replace_non_binary_def)

subsection \<open>The two left joins\<close>

lemma filter_key_le_1:
  assumes "distinct (map key right)"
  shows "length (filter (\<lambda>r. key r = k) right) \<le> 1"
  using assms
proof (induction right)
  case Nil
  then show ?case by simp
next
  case (Cons a right)
  then have "key a = k \<Longrightarrow> filter (\<lambda>r. key r = k) right = []"
    by (auto simp: filter_empty_conv image_iff)
  with Cons show ?case by auto
qed

lemma length_merge_left:
  assumes "distinct (map right_on right)"
  shows "length (merge_left left_on right_on left right) = length left"
proof -
  have one: "length (case filter (\<lambda>r. right_on r = k) right of
                       [] \<Rightarrow> [(l, None)] | ms \<Rightarrow> map (\<lambda>r. (l, Some r)) ms) = 1" for k l
    using filter_key_le_1[OF assms, of k]
    by (cases "filter (\<lambda>r. right_on r = k) right") auto
  show ?thesis
    unfolding merge_left_def
    by (induction left) (simp_all add: one)
qed

text \<open>
  C4: if the user identifier is a unique key of the cleaned users table and the barcode is
  a unique key of the cleaned products table, the joined table has exactly as many rows as
  the cleaned transactions table.
\<close>

theorem merged_data_cardinality:
  assumes "distinct (map (\<lambda>x. ID (snd x)) user)"
    and "distinct (map (\<lambda>x. BARCODE_products (snd x)) products)"
  shows "length (merged_data transaction user products) = length transaction"
proof -
  have u: "distinct (map ID (map snd user))"
    using assms(1) by (simp add: comp_def)
  have p: "distinct (map BARCODE_products (map snd products))"
    using assms(2) by (simp add: comp_def)
  show ?thesis
    unfolding merged_data_def
    by (simp add: length_merge_left[OF p] length_merge_left[OF u])
qed

text \<open>
  Three transactions, of which one has no product and one has no user, against two users
  and two products.
\<close>

theorem merged_data_cardinality_witness:
  "distinct (map (\<lambda>x. ID (snd x))
      [(0::nat, ex_user (Str ''u1'') NaN NaN (Num 34) (Num 57)),
       (1, ex_user (Str ''u2'') NaN NaN (Num 20) (Num 3))])
   \<and> distinct (map (\<lambda>x. BARCODE_products (snd x))
      [(0::nat, ex_product NaN (Str ''A'') (Str ''111'')),
       (2, ex_product NaN (Str ''B'') (Str ''222''))])
   \<and> length (merged_data
        [(0, ex_transaction (Str ''u1'') (Str ''111'') (Num 1) (Num 2)),
         (1, ex_transaction (Str ''u1'') (Str ''999'') (Num 1) NaN),
         (3, ex_transaction (Str ''u7'') (Str ''222'') (Num 1) (Num 5))]
        [(0, ex_user (Str ''u1'') NaN NaN (Num 34) (Num 57)),
         (1, ex_user (Str ''u2'') NaN NaN (Num 20) (Num 3))]
        [(0, ex_product NaN (Str ''A'') (Str ''111'')),
         (2, ex_product NaN (Str ''B'') (Str ''222''))]) = 3"
proof -
  have u: "distinct (map (\<lambda>x. ID (snd x))
      [(0::nat, ex_user (Str ''u1'') NaN NaN (Num 34) (Num 57)),
       (1, ex_user (Str ''u2'') NaN NaN (Num 20) (Num 3))])"
    by (simp add: ex_user_def)
  have p: "distinct (map (\<lambda>x. BARCODE_products (snd x))
      [(0::nat, ex_product NaN (Str ''A'') (Str ''111'')),
       (2, ex_product NaN (Str ''B'') (Str ''222''))])"
    by (simp add: ex_product_def)
  show ?thesis
    using u p merged_data_cardinality[OF u p,
      of "[(0, ex_transaction (Str ''u1'') (Str ''111'') (Num 1) (Num 2)),
           (1, ex_transaction (Str ''u1'') (Str ''999'') (Num 1) NaN),
           (3, ex_transaction (Str ''u7'') (Str ''222'') (Num 1) (Num 5))]"]
    by simp
qed

subsection \<open>The leading Dips & Salsa brand\<close>








subsection \<open>Sorting and duplicate removal\<close>

lemma zip_keys_nth:
  "(k, i) \<in> set (zip ks [0..<length ks]) \<Longrightarrow> ks ! i = k"
  by (auto simp: set_zip)

lemma map_nth_snd_zip:
  assumes "set ps \<subseteq> set (zip ks [0..<length ks])"
  shows "map ((!) ks) (map snd ps) = map fst ps"
  using assms by (induction ps) (auto dest: zip_keys_nth)

lemma stable_argsort_ok: "argsort_ok stable_argsort"
proof -
  have "mset (stable_argsort ks) = mset [0..<length ks]
        \<and> sorted (map ((!) ks) (stable_argsort ks))" for ks
  proof
    have e: "map snd (zip ks [0..<length ks]) = [0..<length ks]" by simp
    have "mset (stable_argsort ks) = mset (map snd (zip ks [0..<length ks]))"
      by (simp only: stable_argsort_def mset_map mset_sort)
    then show "mset (stable_argsort ks) = mset [0..<length ks]" by (simp only: e)
    have "map ((!) ks) (stable_argsort ks) = map fst (sort_key fst (zip ks [0..<length ks]))"
      unfolding stable_argsort_def by (rule map_nth_snd_zip) simp
    then show "sorted (map ((!) ks) (stable_argsort ks))" by simp
  qed
  then show ?thesis by (simp only: argsort_ok_def) simp
qed


lemma argsort_ok_mset:
  "argsort_ok argsort \<Longrightarrow> mset (argsort ks) = mset [0..<length ks]"
  by (simp only: argsort_ok_def)

lemma argsort_ok_sorted:
  "argsort_ok argsort \<Longrightarrow> sorted (map ((!) ks) (argsort ks))"
  by (simp only: argsort_ok_def)

lemma argsort_bound:
  assumes "argsort_ok argsort"
  shows "set (argsort ks) = {..<length ks}"
proof -
  have "mset (argsort ks) = mset [0..<length ks]"
    using assms by (rule argsort_ok_mset)
  then have "set (argsort ks) = set [0..<length ks]" by (rule mset_eq_setD)
  also have "\<dots> = {..<length ks}" by (simp only: atLeast_upt)
  finally show ?thesis .
qed

lemma mset_take_rows:
  assumes "mset p = mset [0..<length df]"
  shows "mset (take_rows df p) = mset df"
proof -
  have "mset (take_rows df p) = image_mset ((!) df) (mset p)"
    by (simp only: take_rows_def mset_map)
  also have "\<dots> = mset (map ((!) df) [0..<length df])"
    by (simp only: assms mset_map)
  finally show ?thesis by (simp only: map_nth)
qed


lemma mset_sort_index:
  "argsort_ok argsort \<Longrightarrow> mset (sort_index argsort df) = mset df"
  unfolding sort_index_def by (rule mset_take_rows) (simp only: argsort_ok_mset length_map)

lemma set_sort_index:
  "argsort_ok argsort \<Longrightarrow> set (sort_index argsort df) = set df"
  by (rule mset_eq_setD) (rule mset_sort_index)


lemma mirror_upt: "map (\<lambda>j. n - 1 - j) [0..<n] = rev [0..<n]"
  by (rule nth_equalityI) (auto simp: rev_nth)

lemma mset_sort_values_desc:
  assumes "argsort_ok argsort"
  shows "mset (sort_values_desc argsort by df) = mset df"
proof -
  let ?n = "length df" and ?p = "argsort (rev (map by df))"
  have "mset ?p = mset [0..<?n]"
    using argsort_ok_mset[OF assms, of "rev (map by df)"]
    by (simp only: length_rev length_map)
  then have "mset (map (\<lambda>j. ?n - 1 - j) ?p) = mset (map (\<lambda>j. ?n - 1 - j) [0..<?n])"
    by (simp only: mset_map)
  then have "mset (rev (map (\<lambda>j. ?n - 1 - j) ?p)) = mset [0..<?n]"
    by (simp only: mirror_upt mset_rev)
  then show ?thesis
    unfolding sort_values_desc_def by (rule mset_take_rows)
qed

lemma sorted_sort_values_desc:
  assumes "argsort_ok argsort"
  shows "sorted (rev (map by (sort_values_desc argsort by df)))"
proof -
  let ?n = "length df" and ?ks = "rev (map by df)"
  let ?p = "argsort ?ks"
  have bound: "set ?p = {..<?n}"
    using argsort_bound[OF assms, of ?ks] by (simp only: length_rev length_map)
  have "map by (sort_values_desc argsort by df)
        = rev (map (\<lambda>j. by (df ! (?n - 1 - j))) ?p)"
    by (simp add: sort_values_desc_def take_rows_def rev_map comp_def)
  also have "map (\<lambda>j. by (df ! (?n - 1 - j))) ?p = map ((!) ?ks) ?p"
    using bound by (auto simp: rev_nth)
  finally have "rev (map by (sort_values_desc argsort by df)) = map ((!) ?ks) ?p"
    by simp
  moreover have "sorted (map ((!) ?ks) ?p)"
    using assms by (rule argsort_ok_sorted)
  ultimately show ?thesis by simp
qed

lemma subseq_drop_dups: "subseq (drop_dups seen key xs) xs"
  by (induction xs arbitrary: seen) auto

lemma set_drop_dups: "set (drop_dups seen key xs) \<subseteq> set xs"
  by (induction xs arbitrary: seen) auto

lemma keys_drop_dups:
  "key ` set (drop_dups seen key xs) = key ` set xs - set seen"
  by (induction xs arbitrary: seen) auto

lemma distinct_keys_drop_dups: "distinct (map key (drop_dups seen key xs))"
  by (induction xs arbitrary: seen) (auto simp: keys_drop_dups)

lemma drop_dups_first:
  "x \<in> set (drop_dups seen key xs) \<Longrightarrow>
     \<exists>ys zs. xs = ys @ x # zs \<and> key x \<notin> key ` set ys \<and> key x \<notin> set seen"
proof (induction xs arbitrary: seen)
  case Nil
  then show ?case by simp
next
  case (Cons a xs)
  show ?case
  proof (cases "key a \<in> set seen")
    case True
    with Cons.prems have "x \<in> set (drop_dups seen key xs)" by simp
    from Cons.IH[OF this] obtain ys zs where
      "xs = ys @ x # zs" "key x \<notin> key ` set ys" "key x \<notin> set seen" by blast
    with True have "a # xs = (a # ys) @ x # zs \<and> key x \<notin> key ` set (a # ys)
        \<and> key x \<notin> set seen"
      by auto
    then show ?thesis by blast
  next
    case False
    with Cons.prems consider "x = a" | "x \<in> set (drop_dups (key a # seen) key xs)" by auto
    then show ?thesis
    proof cases
      case 1
      with False have "a # xs = [] @ x # xs \<and> key x \<notin> key ` set []
          \<and> key x \<notin> set seen" by simp
      then show ?thesis by blast
    next
      case 2
      from Cons.IH[OF this] obtain ys zs where
        "xs = ys @ x # zs" "key x \<notin> key ` set ys" "key x \<notin> set (key a # seen)" by blast
      then have "a # xs = (a # ys) @ x # zs \<and> key x \<notin> key ` set (a # ys)
          \<and> key x \<notin> set seen"
        by auto
      then show ?thesis by blast
    qed
  qed
qed


lemma set_sub_mset:
  assumes "mset xs \<subseteq># mset ys"
  shows "set xs \<subseteq> set ys"
  using assms set_mset_mono by force



lemma mset_drop_dups: "mset (drop_dups seen key xs) \<subseteq># mset xs"
proof (induction xs arbitrary: seen)
  case Nil
  then show ?case by simp
next
  case (Cons a xs)
  have "mset (drop_dups seen key xs) \<subseteq># add_mset a (mset xs)"
    using Cons[of seen] by (rule subset_mset.order_trans) simp
  with Cons[of "key a # seen"] show ?case by simp
qed

lemma sorted_wrt_drop_dups:
  "sorted_wrt P xs \<Longrightarrow> sorted_wrt P (drop_dups seen key xs)"
proof (induction xs arbitrary: seen)
  case Nil
  then show ?case by simp
next
  case (Cons a xs)
  then show ?case
    using set_drop_dups[of "key a # seen" key xs] by auto
qed

subsection \<open>Order of the retained rows\<close>

lemma remove_duplicate_missing_sales_eq:
  "remove_duplicate_missing_sales argsort df =
     sort_index argsort
       (filter (\<lambda>x. \<not> duplicated (\<lambda>x. drop_FINAL_SALE (snd x)) df x) df @
        filter (\<lambda>x. duplicated (\<lambda>x. drop_FINAL_SALE (snd x)) df x
                  \<and> notna (FINAL_SALE (snd x))) df)"
  by (simp add: remove_duplicate_missing_sales_def Let_def)


lemma keep_most_complete_duplicates_eq:
  "keep_most_complete_duplicates argsort df =
     (if filter (duplicated (\<lambda>x. BARCODE_products (snd x)) df) df = [] then df
      else sort_index argsort
             (filter (\<lambda>x. \<not> duplicated (\<lambda>x. BARCODE_products (snd x)) df x) df @
              drop_dups [] (\<lambda>x. BARCODE_products (snd x))
                (sort_values_desc argsort (\<lambda>x. non_missing_count (snd x))
                   (filter (duplicated (\<lambda>x. BARCODE_products (snd x)) df) df))))"
  by (simp add: keep_most_complete_duplicates_def Let_def)

lemma mset_keep_most_complete_duplicates:
  assumes "argsort_ok argsort"
  shows "mset (keep_most_complete_duplicates argsort df) \<subseteq># mset df"
proof -
  let ?dup = "duplicated (\<lambda>x. BARCODE_products (snd x)) df"
  let ?S = "sort_values_desc argsort (\<lambda>x. non_missing_count (snd x)) (filter ?dup df)"
  let ?M = "drop_dups [] (\<lambda>x. BARCODE_products (snd x)) ?S"
  have "mset ?M \<subseteq># mset ?S" by (rule mset_drop_dups)
  also have "mset ?S = mset (filter ?dup df)"
    using assms by (rule mset_sort_values_desc)
  finally have "mset (filter (\<lambda>x. \<not> ?dup x) df) + mset ?M
      \<subseteq># mset (filter (\<lambda>x. \<not> ?dup x) df) + mset (filter ?dup df)"
    by (simp only: subset_mset.add_left_mono)
  also have "\<dots> = mset df"
    by (simp only: mset_filter) (metis multiset_partition add.commute)
  finally have "mset (filter (\<lambda>x. \<not> ?dup x) df @ ?M) \<subseteq># mset df"
    by (simp only: mset_append)
  then show ?thesis
    by (cases "filter ?dup df = []")
      (simp_all only: keep_most_complete_duplicates_eq if_True if_False
        mset_sort_index[OF assms] subset_mset.order_refl simp_thms)
qed




subsection \<open>Tables as read and coerced\<close>

lemma read_csv_labels: "map fst (read_csv rows) = [0..<length rows]"
  by (simp add: read_csv_def)

lemma read_csv_row: "x \<in> set (read_csv rows) \<Longrightarrow> fst x < length rows \<and> rows ! fst x = snd x"
  by (cases x) (auto simp: read_csv_def set_zip)

lemma drop_duplicates_labels: "sorted_wrt (<) (map fst (drop_duplicates (read_csv rows)))"
proof -
  have "sorted_wrt (\<lambda>x y. fst x < fst y) (read_csv rows)"
    using sorted_wrt_upt[of 0 "length rows"]
    by (simp only: sorted_wrt_map[symmetric] read_csv_labels)
  then have "sorted_wrt (\<lambda>x y. fst x < fst y) (drop_duplicates (read_csv rows))"
    unfolding drop_duplicates_def by (rule sorted_wrt_drop_dups)
  then show ?thesis by (simp only: sorted_wrt_map)
qed

lemma drop_duplicates_row:
  "x \<in> set (drop_duplicates (read_csv rows)) \<Longrightarrow> fst x < length rows \<and> rows ! fst x = snd x"
  using set_drop_dups[of "[]" snd "read_csv rows"] read_csv_row[of x rows]
  by (auto simp: drop_duplicates_def)

lemma map_result_all2:
  "map_result f xs = Inr ys \<Longrightarrow> list_all2 (\<lambda>x y. f x = Inr y) xs ys"
  by (induction xs arbitrary: ys) (auto split: sum.splits)

lemma list_all2_right_row:
  assumes "list_all2 R xs ys" "y \<in> set ys"
  shows "\<exists>x \<in> set xs. R x y"
  using assms by (induction rule: list_all2_induct) auto

lemma coerce_transactions_rows:
  assumes "coerce_transactions pyfloat to_numeric str_of raw = Inr df"
  shows "list_all2 (coerced_from pyfloat to_numeric str_of)
           (drop_duplicates (read_csv raw)) df"
proof -
  let ?f = "\<lambda>x. case clean_quantity pyfloat (FINAL_QUANTITY (snd x)) of
                   Inl e \<Rightarrow> Inl e
                 | Inr q \<Rightarrow> Inr (fst x, (snd x)\<lparr>FINAL_QUANTITY := q\<rparr>)"
  let ?g = "\<lambda>x. (fst x, (snd x)\<lparr>BARCODE := astype_str str_of (BARCODE (snd x)),
                    FINAL_SALE := to_numeric_coerce to_numeric (FINAL_SALE (snd x))\<rparr>)"
  from assms obtain ys where
    ys: "map_result ?f (drop_duplicates (read_csv raw)) = Inr ys" and df: "df = map ?g ys"
    by (auto simp: coerce_transactions_def Let_def split: sum.splits)
  have "list_all2 (\<lambda>x y. ?f x = Inr y) (drop_duplicates (read_csv raw)) ys"
    using ys by (rule map_result_all2)
  then have "list_all2 (\<lambda>x y. coerced_from pyfloat to_numeric str_of x (?g y))
               (drop_duplicates (read_csv raw)) ys"
    by (rule list_all2_mono) (auto simp: coerced_from_def split: sum.splits)
  then show ?thesis
    by (simp add: df list_all2_map2)
qed

lemma coerce_transactions_labels:
  assumes "coerce_transactions pyfloat to_numeric str_of raw = Inr df"
  shows "sorted_wrt (<) (map fst df)"
proof -
  have "list_all2 (\<lambda>x y. fst x = fst y) (drop_duplicates (read_csv raw)) df"
    using coerce_transactions_rows[OF assms]
    by (rule list_all2_mono) (simp add: coerced_from_def)
  then have "map fst (drop_duplicates (read_csv raw)) = map fst df"
    by (simp add: list_all2_conv_all_nth list_eq_iff_nth_eq)
  then show ?thesis
    using drop_duplicates_labels[of raw] by simp
qed

lemma set_remove_duplicate_missing_sales:
  assumes "argsort_ok argsort"
  shows "set (remove_duplicate_missing_sales argsort df) =
     {x \<in> set df. \<not> duplicated (\<lambda>x. drop_FINAL_SALE (snd x)) df x \<or> notna (FINAL_SALE (snd x))}"
  unfolding remove_duplicate_missing_sales_eq set_sort_index[OF assms]
  by auto

subsection \<open>Reconciling duplicated transactions\<close>


lemma clean_transactions_Inr:
  assumes "clean_transactions argsort pyfloat to_numeric str_of raw = Inr out"
  shows "\<exists>df. coerce_transactions pyfloat to_numeric str_of raw = Inr df
           \<and> out = remove_duplicate_missing_sales argsort df"
  using assms by (auto simp: clean_transactions_def split: sum.splits)




subsection \<open>Values that do not parse\<close>

lemma coerced_rows:
  assumes "coerce_transactions pyfloat to_numeric str_of raw = Inr df" "y \<in> set df"
  shows "fst y < length raw
    \<and> clean_quantity pyfloat (FINAL_QUANTITY (raw ! fst y)) = Inr (FINAL_QUANTITY (snd y))
    \<and> FINAL_SALE (snd y) = to_numeric_coerce to_numeric (FINAL_SALE (raw ! fst y))"
proof -
  from list_all2_right_row[OF coerce_transactions_rows[OF assms(1)] assms(2)]
  obtain x where x: "x \<in> set (drop_duplicates (read_csv raw))"
    and c: "coerced_from pyfloat to_numeric str_of x y" by blast
  from drop_duplicates_row[OF x] have "fst x < length raw" "raw ! fst x = snd x" by simp_all
  with c show ?thesis by (simp add: coerced_from_def)
qed




subsection \<open>Quantities\<close>

lemma clean_quantity_is_float:
  "clean_quantity pyfloat c = Inr v \<Longrightarrow> is_float v"
  by (auto simp: clean_quantity_def astype_float_def replace_value_def is_float_def
      split: sum.splits cell.splits parsed.splits if_splits)

text \<open>
  C8: in every row of the cleaned transaction table the quantity is a float.  It is what
  lines 152-156 make of the quantity of that row in the file: the token \<open>zero\<close> has become
  0, a value that reads as exactly 276 has become 2.76, and every other value is the
  number it reads as.  (Python reads \<open>0\<close> as the number 0.)
\<close>

theorem quantity_numeric_and_corrected:
  assumes "argsort_ok argsort"
    and "pyfloat ''0'' = Finite 0"
    and "clean_transactions argsort pyfloat to_numeric str_of raw = Inr out"
    and "(i, t) \<in> set out"
  shows "is_float (FINAL_QUANTITY t) \<and> i < length raw
    \<and> clean_quantity pyfloat (FINAL_QUANTITY (raw ! i)) = Inr (FINAL_QUANTITY t)
    \<and> (FINAL_QUANTITY (raw ! i) = Str ''zero'' \<longrightarrow> FINAL_QUANTITY t = Num 0)
    \<and> (\<forall>v. FINAL_QUANTITY (raw ! i) \<noteq> Str ''zero''
            \<and> astype_float pyfloat (FINAL_QUANTITY (raw ! i)) = Inr v \<longrightarrow>
            FINAL_QUANTITY t = (if v = Num 276 then Num (69 / 25) else v))"
proof -
  from clean_transactions_Inr[OF assms(3)] obtain df where
    df: "coerce_transactions pyfloat to_numeric str_of raw = Inr df"
    and out: "out = remove_duplicate_missing_sales argsort df" by blast
  have "(i, t) \<in> set df"
    using assms(4) unfolding out set_remove_duplicate_missing_sales[OF assms(1)] by simp
  from coerced_rows[OF df this] have i: "i < length raw"
    and q: "clean_quantity pyfloat (FINAL_QUANTITY (raw ! i)) = Inr (FINAL_QUANTITY t)"
    by simp_all
  have 1: "is_float (FINAL_QUANTITY t)"
    using q by (rule clean_quantity_is_float)
  have 2: "FINAL_QUANTITY (raw ! i) = Str ''zero'' \<longrightarrow> FINAL_QUANTITY t = Num 0"
    using q assms(2) by (auto simp: clean_quantity_def astype_float_def replace_value_def)
  have 3: "\<forall>v. FINAL_QUANTITY (raw ! i) \<noteq> Str ''zero''
            \<and> astype_float pyfloat (FINAL_QUANTITY (raw ! i)) = Inr v \<longrightarrow>
            FINAL_QUANTITY t = (if v = Num 276 then Num (69 / 25) else v)"
    using q by (auto simp: clean_quantity_def replace_value_def)
  from 1 i q 2 3 show ?thesis by blast
qed

text \<open>The quantities \<open>zero\<close>, \<open>276.00\<close> and \<open>2.00\<close>.\<close>

theorem quantity_numeric_and_corrected_witness:
  "argsort_ok stable_argsort \<and> parse_decimal ''0'' = Finite 0
   \<and> clean_transactions stable_argsort parse_decimal parse_decimal ex_str_of
       [ex_transaction (Str ''u1'') (Str ''111'') (Str ''zero'') (Str ''1.49''),
        ex_transaction (Str ''u2'') (Str ''222'') (Str ''276.00'') (Str ''3.00''),
        ex_transaction (Str ''u3'') (Str ''333'') (Str ''2.00'') (Str ''5.00'')]
     = Inr [(0, ex_transaction (Str ''u1'') (Str ''111'') (Num 0) (Num (149 / 100))),
            (1, ex_transaction (Str ''u2'') (Str ''222'') (Num (69 / 25)) (Num 3)),
            (2, ex_transaction (Str ''u3'') (Str ''333'') (Num 2) (Num 5))]
   \<and> is_float (FINAL_QUANTITY
        (ex_transaction (Str ''u2'') (Str ''222'') (Num (69 / 25)) (Num 3)))"
proof -
  have z: "parse_decimal ''0'' = Finite 0"
    by (simp add: parse_decimal_def digit_of_def)
  have e: "clean_transactions stable_argsort parse_decimal parse_decimal ex_str_of
       [ex_transaction (Str ''u1'') (Str ''111'') (Str ''zero'') (Str ''1.49''),
        ex_transaction (Str ''u2'') (Str ''222'') (Str ''276.00'') (Str ''3.00''),
        ex_transaction (Str ''u3'') (Str ''333'') (Str ''2.00'') (Str ''5.00'')]
     = Inr [(0, ex_transaction (Str ''u1'') (Str ''111'') (Num 0) (Num (149 / 100))),
            (1, ex_transaction (Str ''u2'') (Str ''222'') (Num (69 / 25)) (Num 3)),
            (2, ex_transaction (Str ''u3'') (Str ''333'') (Num 2) (Num 5))]"
    by (simp add: clean_transactions_def coerce_transactions_def read_csv_def
        drop_duplicates_def ex_transaction_def clean_quantity_def replace_value_def
        astype_float_def parse_decimal_def digit_of_def to_numeric_coerce_def astype_str_def
        remove_duplicate_missing_sales_def duplicated_def drop_FINAL_SALE_def notna_def
        sort_index_def take_rows_def stable_argsort_def upt_rec)
  have m: "(1, ex_transaction (Str ''u2'') (Str ''222'') (Num (69 / 25)) (Num 3))
      \<in> set [(0, ex_transaction (Str ''u1'') (Str ''111'') (Num 0) (Num (149 / 100))),
            (1, ex_transaction (Str ''u2'') (Str ''222'') (Num (69 / 25)) (Num 3)),
            (2, ex_transaction (Str ''u3'') (Str ''333'') (Num 2) (Num 5))]"
    by simp
  show ?thesis
    using stable_argsort_ok z e
      quantity_numeric_and_corrected[OF stable_argsort_ok z e m]
    by blast
qed

subsection \<open>Birth dates and ages of the cleaned users\<close>














subsection \<open>One row for each barcode\<close>

lemma count_keys:
  "count (image_mset key (mset xs)) k = length (filter (\<lambda>y. key y = k) xs)"
  by (induction xs) auto

lemma not_duplicated_distinct:
  assumes "\<And>x. x \<in> set xs \<Longrightarrow> \<not> duplicated key xs x"
  shows "distinct (map key xs)"
proof -
  have "count (mset (map key xs)) a = (if a \<in> set (map key xs) then 1 else 0)" for a
  proof (cases "a \<in> set (map key xs)")
    case True
    then obtain x where x: "x \<in> set xs" "a = key x" by auto
    then have "length (filter (\<lambda>y. key y = a) xs) \<le> 1"
      using assms[of x] by (simp add: duplicated_def)
    moreover have "filter (\<lambda>y. key y = a) xs \<noteq> []"
      using x by (auto simp: filter_empty_conv)
    ultimately have "length (filter (\<lambda>y. key y = a) xs) = 1"
      by (cases "filter (\<lambda>y. key y = a) xs") auto
    then show ?thesis using True by (simp add: count_keys)
  next
    case False
    then have "filter (\<lambda>y. key y = a) xs = []"
      by (auto simp: filter_empty_conv)
    with False show ?thesis by (simp add: count_keys)
  qed
  then show ?thesis by (simp only: distinct_count_atmost_1) simp
qed

lemma duplicated_same_key:
  "key x = key y \<Longrightarrow> duplicated key df x = duplicated key df y"
  by (simp add: duplicated_def)

lemma two_rows_duplicated:
  assumes "x \<in> set df" "y \<in> set df" "x \<noteq> y" "key y = key x"
  shows "duplicated key df x"
proof -
  have "{x, y} \<subseteq> set (filter (\<lambda>z. key z = key x) df)"
    using assms by auto
  then have "card {x, y} \<le> card (set (filter (\<lambda>z. key z = key x) df))"
    by (intro card_mono) simp_all
  also have "\<dots> \<le> length (filter (\<lambda>z. key z = key x) df)"
    by (rule card_length)
  finally show ?thesis using assms(3) by (simp add: duplicated_def)
qed

lemma duplicated_filter_le:
  assumes "\<not> duplicated key df x"
  shows "\<not> duplicated key (filter P df) x"
proof -
  have "filter (\<lambda>y. key y = key x) (filter P df) = filter P (filter (\<lambda>y. key y = key x) df)"
    by (simp add: conj_commute)
  then have "length (filter (\<lambda>y. key y = key x) (filter P df))
      \<le> length (filter (\<lambda>y. key y = key x) df)"
    by (simp only: length_filter_le)
  with assms show ?thesis by (simp add: duplicated_def)
qed

lemma argsort_Nil: "argsort_ok argsort \<Longrightarrow> argsort [] = []"
  using argsort_ok_mset[of argsort "[]"] by simp

lemma sort_values_desc_Nil:
  "argsort_ok argsort \<Longrightarrow> sort_values_desc argsort by [] = []"
  by (simp add: sort_values_desc_def take_rows_def argsort_Nil)

text \<open>The retained rows: the rows with a barcode of their own, and one row for each
  barcode that several rows share.\<close>

lemma mset_keep_most_complete_duplicates_eq:
  assumes "argsort_ok argsort"
  shows "mset (keep_most_complete_duplicates argsort df) =
     mset (filter (\<lambda>x. \<not> duplicated (\<lambda>x. BARCODE_products (snd x)) df x) df @
           drop_dups [] (\<lambda>x. BARCODE_products (snd x))
             (sort_values_desc argsort (\<lambda>x. non_missing_count (snd x))
                (filter (duplicated (\<lambda>x. BARCODE_products (snd x)) df) df)))"
proof (cases "filter (duplicated (\<lambda>x. BARCODE_products (snd x)) df) df = []")
  case True
  then have "filter (\<lambda>x. \<not> duplicated (\<lambda>x. BARCODE_products (snd x)) df x) df = df"
    by (auto simp: filter_empty_conv filter_id_conv)
  with True show ?thesis
    by (simp add: keep_most_complete_duplicates_eq sort_values_desc_Nil[OF assms])
next
  case False
  then show ?thesis
    by (simp only: keep_most_complete_duplicates_eq if_False mset_sort_index[OF assms])
qed

lemma unique_barcodes:
  assumes "argsort_ok argsort"
  shows "distinct (map (\<lambda>x. BARCODE_products (snd x))
                     (keep_most_complete_duplicates argsort df))"
proof -
  let ?K = "\<lambda>x :: nat \<times> product. BARCODE_products (snd x)"
  let ?N = "filter (\<lambda>x. \<not> duplicated ?K df x) df"
  let ?D = "filter (duplicated ?K df) df"
  let ?S = "sort_values_desc argsort (\<lambda>x. non_missing_count (snd x)) ?D"
  let ?M = "drop_dups [] ?K ?S"
  have setS: "set ?S = set ?D"
    using mset_sort_values_desc[OF assms] by (rule mset_eq_setD)
  have N: "distinct (map ?K ?N)"
  proof (rule not_duplicated_distinct)
    fix x assume "x \<in> set ?N"
    then have "\<not> duplicated ?K df x" by simp
    then show "\<not> duplicated ?K ?N x" by (rule duplicated_filter_le)
  qed
  have M: "distinct (map ?K ?M)" by (rule distinct_keys_drop_dups)
  have "?K x \<noteq> ?K y" if "x \<in> set ?N" "y \<in> set ?M" for x y
  proof
    assume eq: "?K x = ?K y"
    from that(2) have "y \<in> set ?D" using set_drop_dups[of "[]" ?K ?S] setS by auto
    then have "duplicated ?K df y" by simp
    then have "duplicated ?K df x" using duplicated_same_key[of ?K x y df] eq by simp
    with that(1) show False by simp
  qed
  then have "set (map ?K ?N) \<inter> set (map ?K ?M) = {}" by auto
  with N M have "distinct (map ?K (?N @ ?M))" by simp
  moreover have "mset (map ?K (keep_most_complete_duplicates argsort df))
      = mset (map ?K (?N @ ?M))"
    using mset_keep_most_complete_duplicates_eq[OF assms, of df]
    by (simp only: mset_map)
  ultimately show ?thesis
    using mset_eq_imp_distinct_iff by blast
qed

lemma every_barcode_retained:
  assumes "argsort_ok argsort"
  shows "(\<lambda>x. BARCODE_products (snd x)) ` set (keep_most_complete_duplicates argsort df)
     = (\<lambda>x. BARCODE_products (snd x)) ` set df"
proof -
  let ?K = "\<lambda>x :: nat \<times> product. BARCODE_products (snd x)"
  let ?N = "filter (\<lambda>x. \<not> duplicated ?K df x) df"
  let ?D = "filter (duplicated ?K df) df"
  let ?S = "sort_values_desc argsort (\<lambda>x. non_missing_count (snd x)) ?D"
  let ?M = "drop_dups [] ?K ?S"
  have setS: "set ?S = set ?D"
    using mset_sort_values_desc[OF assms] by (rule mset_eq_setD)
  have "set (keep_most_complete_duplicates argsort df) = set (?N @ ?M)"
    using mset_keep_most_complete_duplicates_eq[OF assms, of df] by (rule mset_eq_setD)
  then have "?K ` set (keep_most_complete_duplicates argsort df)
      = ?K ` set ?N \<union> ?K ` set ?M"
    by (simp add: image_Un)
  also have "?K ` set ?M = ?K ` set ?D"
    using keys_drop_dups[of ?K "[]" ?S] setS by simp
  also have "?K ` set ?N \<union> ?K ` set ?D = ?K ` set df"
    by auto
  finally show ?thesis .
qed

lemma most_complete_retained:
  assumes "argsort_ok argsort"
    and "x \<in> set (keep_most_complete_duplicates argsort df)"
    and "y \<in> set df"
    and "BARCODE_products (snd y) = BARCODE_products (snd x)"
  shows "x \<in> set df \<and> non_missing_count (snd y) \<le> non_missing_count (snd x)"
proof -
  let ?K = "\<lambda>x :: nat \<times> product. BARCODE_products (snd x)"
  let ?C = "\<lambda>x :: nat \<times> product. non_missing_count (snd x)"
  let ?N = "filter (\<lambda>x. \<not> duplicated ?K df x) df"
  let ?D = "filter (duplicated ?K df) df"
  let ?S = "sort_values_desc argsort ?C ?D"
  let ?M = "drop_dups [] ?K ?S"
  have setS: "set ?S = set ?D"
    using mset_sort_values_desc[OF assms(1)] by (rule mset_eq_setD)
  have "set (keep_most_complete_duplicates argsort df) = set (?N @ ?M)"
    using mset_keep_most_complete_duplicates_eq[OF assms(1), of df] by (rule mset_eq_setD)
  with assms(2) consider "x \<in> set ?N" | "x \<in> set ?M" by auto
  then show ?thesis
  proof cases
    case 1
    then have x: "x \<in> set df" "\<not> duplicated ?K df x" by simp_all
    have "y = x"
    proof (rule ccontr)
      assume "y \<noteq> x"
      then have "duplicated ?K df x"
        using two_rows_duplicated[of x df y ?K] x(1) assms(3,4) by auto
      with x(2) show False by simp
    qed
    with x(1) show ?thesis by simp
  next
    case 2
    then have xS: "x \<in> set ?S" using set_drop_dups[of "[]" ?K ?S] by auto
    then have xD: "x \<in> set df" "duplicated ?K df x" using setS by simp_all
    from drop_dups_first[OF 2] obtain ys zs where
      S: "?S = ys @ x # zs" and ys: "?K x \<notin> ?K ` set ys" by blast
    have "duplicated ?K df y"
      using xD(2) duplicated_same_key[of ?K y x df] assms(4) by simp
    with assms(3) have "y \<in> set ?S" using setS by simp
    moreover have "y \<notin> set ys"
      using ys assms(4) by (auto simp: image_iff)
    ultimately have "y = x \<or> y \<in> set zs" using S by auto
    moreover have "sorted (rev (map ?C (ys @ x # zs)))"
      using sorted_sort_values_desc[OF assms(1), of ?C ?D] S by simp
    then have "\<forall>z \<in> set zs. ?C z \<le> ?C x"
      by (auto simp: sorted_append)
    ultimately show ?thesis using xD(1) by auto
  qed
qed

lemma barcodes_are_strings:
  assumes "argsort_ok argsort" "x \<in> set (clean_products argsort str_of raw)"
  shows "\<exists>s. BARCODE_products (snd x) = Str s"
proof -
  let ?P = "filter (\<lambda>x. notna (BARCODE_products (snd x)))
      (map (\<lambda>x. (fst x,
              (snd x)\<lparr>BARCODE_products := astype_str str_of (BARCODE_products (snd x))\<rparr>))
         (filter (\<lambda>x. CATEGORY_1 (snd x) \<noteq> Str ''Needs Review'')
            (drop_duplicates (read_csv raw))))"
  have "set (keep_most_complete_duplicates argsort ?P) \<subseteq> set ?P"
    using mset_keep_most_complete_duplicates[OF assms(1)] by (rule set_sub_mset)
  with assms(2) have "x \<in> set ?P"
    by (auto simp: clean_products_def Let_def)
  then show ?thesis
    by (auto simp: astype_str_def split: cell.splits)
qed

text \<open>
  C1: no two rows of the cleaned products table share a barcode, and every barcode is a
  string.  A barcode that is missing in the file is not removed, though: \<open>astype(str)\<close>
  (line 202) has made it the string \<open>nan\<close> before \<open>dropna\<close> (line 227) looks for missing
  values, so the row stays, with a barcode that the script itself counts as missing (line
  222).
\<close>

theorem missing_barcode_kept:
  "clean_products stable_argsort ex_str_of
     [ex_product NaN (Str ''A'') (Num 123), ex_product NaN (Str ''B'') NaN]
   = [(0, ex_product NaN (Str ''A'') (Str ''123.0'')),
      (1, ex_product NaN (Str ''B'') (Str ''nan''))]
   \<and> is_missing_barcode (BARCODE_products (ex_product NaN (Str ''B'') (Str ''nan'')))"
  by (simp add: clean_products_def read_csv_def drop_duplicates_def ex_product_def
      ex_str_of_def astype_str_def notna_def keep_most_complete_duplicates_def
      duplicated_def is_missing_barcode_def upt_rec)


end
